theory Spec2Isabelle
  imports Complex_Main "HOL-Library.Sublist"
begin

section \<open>The item models of \<^verbatim>\<open>resultsmodel.cpp\<close>\<close>

text \<open>
  The proxy models of \<^verbatim>\<open>src/lib/resultsmodel.cpp\<close> read their source model through
  \<^verbatim>\<open>rowCount\<close>, \<^verbatim>\<open>index\<close>, \<^verbatim>\<open>parent\<close> and \<^verbatim>\<open>data\<close> only. The source is the two-level tree
  of the runner results: the root rows are the categories, the rows below a category are
  its matches. A node carries the three roles the proxies read: the display text, the type
  and the relevance. The relevance is a \<^verbatim>\<open>qreal\<close> in the source and the real number it
  denotes here; the proxies only compare it.
\<close>

record node =
  displayRole :: string
  typeRole :: int
  relevanceRole :: real

text \<open>A category row together with its match rows; a model is the list of its categories.\<close>

type_synonym category = "node \<times> node list"
type_synonym tree = "category list"

text \<open>
  A \<^verbatim>\<open>QModelIndex\<close> of a two-level model: the invalid index, the index of a root row,
  or the index of a row below a root row.
\<close>

datatype QModelIndex = InvalidIndex | TopIndex nat | ChildIndex nat nat

fun isValid :: "QModelIndex \<Rightarrow> bool" where
  "isValid InvalidIndex = False"
| "isValid (TopIndex i) = True"
| "isValid (ChildIndex i j) = True"

fun parent :: "QModelIndex \<Rightarrow> QModelIndex" where
  "parent InvalidIndex = InvalidIndex"
| "parent (TopIndex i) = InvalidIndex"
| "parent (ChildIndex i j) = TopIndex i"

text \<open>\<^verbatim>\<open>QModelIndex::row()\<close>; the invalid index reports \<open>-1\<close>.\<close>

fun row :: "QModelIndex \<Rightarrow> int" where
  "row InvalidIndex = - 1"
| "row (TopIndex i) = int i"
| "row (ChildIndex i j) = int j"

fun rowCount :: "tree \<Rightarrow> QModelIndex \<Rightarrow> nat" where
  "rowCount t InvalidIndex = length t"
| "rowCount t (TopIndex i) = (if i < length t then length (snd (t ! i)) else 0)"
| "rowCount t (ChildIndex i j) = 0"

text \<open>
  \<^verbatim>\<open>index(row, 0, parent)\<close>: the index of an existing row, the invalid index for a row
  the model does not have.
\<close>

fun index_at :: "tree \<Rightarrow> nat \<Rightarrow> QModelIndex \<Rightarrow> QModelIndex" where
  "index_at t r InvalidIndex = (if r < length t then TopIndex r else InvalidIndex)"
| "index_at t r (TopIndex i) =
     (if r < rowCount t (TopIndex i) then ChildIndex i r else InvalidIndex)"
| "index_at t r (ChildIndex i j) = InvalidIndex"

fun node_at :: "tree \<Rightarrow> QModelIndex \<Rightarrow> node option" where
  "node_at t InvalidIndex = None"
| "node_at t (TopIndex i) = (if i < length t then Some (fst (t ! i)) else None)"
| "node_at t (ChildIndex i j) =
     (if i < length t \<and> j < length (snd (t ! i)) then Some (snd (t ! i) ! j) else None)"

text \<open>
  \<^verbatim>\<open>idx.data(role)\<close> followed by \<^verbatim>\<open>toString()\<close>, \<^verbatim>\<open>toInt()\<close>, \<^verbatim>\<open>toReal()\<close>: an index
  without a node yields the null variant, which converts to the empty string and to zero.
\<close>

definition data_display :: "tree \<Rightarrow> QModelIndex \<Rightarrow> string" where
  "data_display t idx = (case node_at t idx of None \<Rightarrow> [] | Some n \<Rightarrow> displayRole n)"

definition data_type :: "tree \<Rightarrow> QModelIndex \<Rightarrow> int" where
  "data_type t idx = (case node_at t idx of None \<Rightarrow> 0 | Some n \<Rightarrow> typeRole n)"

definition data_relevance :: "tree \<Rightarrow> QModelIndex \<Rightarrow> real" where
  "data_relevance t idx = (case node_at t idx of None \<Rightarrow> 0 | Some n \<Rightarrow> relevanceRole n)"


section \<open>CategoryDistributionProxyModel\<close>

text \<open>
  \<^verbatim>\<open>std::ceil(m_limit / qreal(d))\<close>: the quotient is taken in floating point and rounded
  up. For operands of 32 bits the rounded quotient of a non-integral fraction stays
  strictly between the neighbouring integers, so the result is the exact ceiling of the
  rational quotient; this is what the definition computes.
\<close>

definition ceil_quot :: "int \<Rightarrow> int \<Rightarrow> int" where
  "ceil_quot a d = \<lceil>real_of_int a / real_of_int d\<rceil>"

text \<open>
  The loop of \<^verbatim>\<open>filterAcceptsRow\<close> (lines 178 to 192), from counter \<open>i\<close> up to the row of
  the parent. Its state is the pair of \<^verbatim>\<open>itemsBefore\<close> and \<^verbatim>\<open>maxItemsInCategory\<close>, returned
  as the loop leaves it. The C++ \<^verbatim>\<open>int\<close>s are mathematical integers here; by lemma
  \<open>distribution_loop_range\<close> below, \<^verbatim>\<open>itemsBefore\<close> stays between 0 and the limit plus the
  number of categories visited and \<^verbatim>\<open>maxItemsInCategory\<close> between 1 and the limit, so
  the two agree as long as the limit plus the number of categories fits into 32 bits.
\<close>

function distribution_loop :: "int \<Rightarrow> tree \<Rightarrow> int \<Rightarrow> nat \<Rightarrow> int \<Rightarrow> int \<Rightarrow> int \<times> int" where
  "distribution_loop m_limit t parentRow i itemsBefore maxItemsInCategory =
     (if int i \<le> parentRow then
        (let categoryCount = int (rowCount t InvalidIndex);
             itemsInCategory = int (rowCount t (index_at t i InvalidIndex));
             availableSpace = m_limit - itemsBefore - ceil_quot m_limit categoryCount;
             maxItems1 = min availableSpace (ceil_quot m_limit (int i + 2));
             maxItems2 = max 1 maxItems1
         in distribution_loop m_limit t parentRow (Suc i)
              (itemsBefore + min itemsInCategory maxItems2) maxItems2)
      else (itemsBefore, maxItemsInCategory))"
  by pat_completeness auto
termination
  by (relation "measure (\<lambda>(m_limit, t, parentRow, i, itemsBefore, maxItems).
        nat (parentRow + 1 - int i))") auto

text \<open>\<^verbatim>\<open>maxItemsInCategory\<close> as it stands at line 195, for a valid parent.\<close>

definition maxItemsInCategory :: "int \<Rightarrow> tree \<Rightarrow> QModelIndex \<Rightarrow> int" where
  "maxItemsInCategory m_limit t sourceParent =
     (if int (rowCount t InvalidIndex) > 1
      then snd (distribution_loop m_limit t (row sourceParent) 0 0 m_limit)
      else m_limit)"

definition filterAcceptsRow :: "int \<Rightarrow> tree \<Rightarrow> nat \<Rightarrow> QModelIndex \<Rightarrow> bool" where
  "filterAcceptsRow m_limit t sourceRow sourceParent =
     (if m_limit \<le> 0 then True
      else if \<not> isValid sourceParent then True
      else if int sourceRow \<ge> maxItemsInCategory m_limit t sourceParent then False
      else True)"

text \<open>The match rows of category \<open>i\<close> that the filter accepts, and their number.\<close>

definition visibleRows :: "int \<Rightarrow> tree \<Rightarrow> nat \<Rightarrow> nat list" where
  "visibleRows m_limit t i =
     filter (\<lambda>r. filterAcceptsRow m_limit t r (TopIndex i)) [0..<rowCount t (TopIndex i)]"

definition visibleCount :: "int \<Rightarrow> tree \<Rightarrow> nat \<Rightarrow> nat" where
  "visibleCount m_limit t i = length (visibleRows m_limit t i)"


text \<open>
  The budget as the specification words it: the categories are visited top to bottom
  with a running \<open>itemsBefore\<close>; the category at position \<open>i\<close> holding \<open>items\<close> matches gets
  \<open>max 1 (min availableSpace \<lceil>L / (i + 2)\<rceil>)\<close> where
  \<open>availableSpace = L - itemsBefore - \<lceil>L / categoryCount\<rceil>\<close>, and \<open>itemsBefore\<close> grows by
  \<open>min items maxItems\<close>. The result lists the budget of every category visited.
\<close>

fun spec_budget :: "int \<Rightarrow> int \<Rightarrow> nat \<Rightarrow> int \<Rightarrow> nat list \<Rightarrow> int list" where
  "spec_budget L categoryCount i itemsBefore [] = []"
| "spec_budget L categoryCount i itemsBefore (items # rest) =
     (let availableSpace = L - itemsBefore - \<lceil>real_of_int L / real_of_int categoryCount\<rceil>;
          maxItems = max 1 (min availableSpace \<lceil>real_of_int L / real_of_int (int i + 2)\<rceil>)
      in maxItems # spec_budget L categoryCount (Suc i)
                      (itemsBefore + min (int items) maxItems) rest)"

text \<open>The number of matches of every category, in order.\<close>

definition itemCounts :: "tree \<Rightarrow> nat list" where
  "itemCounts t = map (\<lambda>c. length (snd c)) t"

definition spec_budgets :: "int \<Rightarrow> tree \<Rightarrow> int list" where
  "spec_budgets L t = spec_budget L (int (length t)) 0 0 (itemCounts t)"

text \<open>
  The scenario of the specification: three categories of ten matches each, and a single
  category of ten matches.
\<close>

definition someMatch :: node where
  "someMatch = \<lparr>displayRole = ''match'', typeRole = 100, relevanceRole = 1\<rparr>"

definition someCategory :: "string \<Rightarrow> nat \<Rightarrow> category" where
  "someCategory name k =
     (\<lparr>displayRole = name, typeRole = 100, relevanceRole = 1\<rparr>, replicate k someMatch)"

definition scenarioTree :: tree where
  "scenarioTree = [someCategory ''Apps'' 10, someCategory ''Files'' 10, someCategory ''Web'' 10]"

definition singleTree :: tree where
  "singleTree = [someCategory ''Apps'' 10]"


section \<open>SortProxyModel\<close>

text \<open>
  \<^verbatim>\<open>display.contains(word, Qt::CaseInsensitive)\<close>: \<open>word\<close> occurs in \<open>display\<close> as a
  contiguous run once both are case-folded. The folding of a character is Qt's and is a
  parameter.
\<close>

definition contains_ci :: "(char \<Rightarrow> char) \<Rightarrow> string \<Rightarrow> string \<Rightarrow> bool" where
  "contains_ci foldCase display word = sublist (map foldCase word) (map foldCase display)"

text \<open>The inner loop of \<^verbatim>\<open>categoryHasMatchWithAllWords\<close> over \<^verbatim>\<open>m_words\<close> (lines 58 to 63).\<close>

fun containsAllWords :: "(char \<Rightarrow> char) \<Rightarrow> string \<Rightarrow> string list \<Rightarrow> bool \<Rightarrow> bool" where
  "containsAllWords foldCase display [] acc = acc"
| "containsAllWords foldCase display (word # ws) acc =
     containsAllWords foldCase display ws
       (if \<not> contains_ci foldCase display word then False else acc)"

text \<open>The outer loop over the rows below \<^verbatim>\<open>categoryIdx\<close>, from row \<open>i\<close> on.\<close>

function hasMatch_loop ::
  "(char \<Rightarrow> char) \<Rightarrow> string list \<Rightarrow> tree \<Rightarrow> QModelIndex \<Rightarrow> nat \<Rightarrow> bool" where
  "hasMatch_loop foldCase m_words t categoryIdx i =
     (if i < rowCount t categoryIdx then
        (let idx = index_at t i categoryIdx;
             display = data_display t idx
         in if containsAllWords foldCase display m_words True then True
            else hasMatch_loop foldCase m_words t categoryIdx (Suc i))
      else False)"
  by pat_completeness auto
termination
  by (relation "measure (\<lambda>(foldCase, m_words, t, categoryIdx, i). rowCount t categoryIdx - i)")
     auto

definition categoryHasMatchWithAllWords ::
  "(char \<Rightarrow> char) \<Rightarrow> string list \<Rightarrow> tree \<Rightarrow> QModelIndex \<Rightarrow> bool" where
  "categoryHasMatchWithAllWords foldCase m_words t categoryIdx =
     hasMatch_loop foldCase m_words t categoryIdx 0"

text \<open>
  \<^verbatim>\<open>SortProxyModel::lessThan\<close>. \<^verbatim>\<open>qFuzzyCompare\<close> and the comparator of the base class
  \<^verbatim>\<open>QSortFilterProxyModel\<close> belong to Qt and are parameters. \<open>lessThan_byTypeAndRelevance\<close>
  is the part of the function behind the block on categories (lines 86 to 100), which
  that block falls through to.
\<close>

definition lessThan_byTypeAndRelevance ::
  "(real \<Rightarrow> real \<Rightarrow> bool) \<Rightarrow> (QModelIndex \<Rightarrow> QModelIndex \<Rightarrow> bool) \<Rightarrow>
   tree \<Rightarrow> QModelIndex \<Rightarrow> QModelIndex \<Rightarrow> bool" where
  "lessThan_byTypeAndRelevance qFuzzyCompare base_lessThan t sourceA sourceB =
     (let typeA = data_type t sourceA;
          typeB = data_type t sourceB
      in if typeA \<noteq> typeB then typeA < typeB
         else (let relevanceA = data_relevance t sourceA;
                   relevanceB = data_relevance t sourceB
               in if \<not> qFuzzyCompare relevanceA relevanceB then relevanceA < relevanceB
                  else base_lessThan sourceA sourceB))"

definition lessThan ::
  "(real \<Rightarrow> real \<Rightarrow> bool) \<Rightarrow> (QModelIndex \<Rightarrow> QModelIndex \<Rightarrow> bool) \<Rightarrow> (char \<Rightarrow> char) \<Rightarrow>
   string list \<Rightarrow> tree \<Rightarrow> QModelIndex \<Rightarrow> QModelIndex \<Rightarrow> bool" where
  "lessThan qFuzzyCompare base_lessThan foldCase m_words t sourceA sourceB =
     (if \<not> isValid (parent sourceA) \<and> \<not> isValid (parent sourceB) then
        (let hasMatchWithAllWordsA = categoryHasMatchWithAllWords foldCase m_words t sourceA;
             hasMatchWithAllWordsB = categoryHasMatchWithAllWords foldCase m_words t sourceB
         in if hasMatchWithAllWordsA \<noteq> hasMatchWithAllWordsB
            then \<not> hasMatchWithAllWordsA \<and> hasMatchWithAllWordsB
            else lessThan_byTypeAndRelevance qFuzzyCompare base_lessThan t sourceA sourceB)
      else lessThan_byTypeAndRelevance qFuzzyCompare base_lessThan t sourceA sourceB)"

text \<open>
  \<^verbatim>\<open>queryString.split(QLatin1Char(' '), Qt::SkipEmptyParts)\<close>: the pieces between
  occurrences of the separator, the empty ones dropped. \<open>cur\<close> is the piece being read.
\<close>

fun split_from :: "char \<Rightarrow> string \<Rightarrow> string \<Rightarrow> string list" where
  "split_from sep cur [] = (if cur = [] then [] else [cur])"
| "split_from sep cur (c # cs) =
     (if c = sep
      then (if cur = [] then split_from sep [] cs else cur # split_from sep [] cs)
      else split_from sep (cur @ [c]) cs)"

definition split_skipEmptyParts :: "char \<Rightarrow> string \<Rightarrow> string list" where
  "split_skipEmptyParts sep s = split_from sep [] s"

text \<open>
  The sort model's state: the word list, and the number of calls of \<^verbatim>\<open>invalidate()\<close>
  made so far.
\<close>

record SortProxyModel =
  m_words :: "string list"
  invalidations :: nat

definition setQueryString :: "string \<Rightarrow> SortProxyModel \<Rightarrow> SortProxyModel" where
  "setQueryString queryString s =
     (let words = split_skipEmptyParts (CHR '' '') queryString
      in if m_words s \<noteq> words
         then s\<lparr>m_words := words, invalidations := Suc (invalidations s)\<rparr>
         else s)"

text \<open>The case folding of the letters A to Z, for the examples.\<close>

definition asciiFold :: "char \<Rightarrow> char" where
  "asciiFold c =
     (case map_of (zip ''ABCDEFGHIJKLMNOPQRSTUVWXYZ'' ''abcdefghijklmnopqrstuvwxyz'') c of
        None \<Rightarrow> c
      | Some l \<Rightarrow> l)"

text \<open>Qt's formula for \<^verbatim>\<open>qFuzzyCompare\<close> on doubles, in exact arithmetic, for the examples.\<close>

definition fuzzyCompare_exact :: "real \<Rightarrow> real \<Rightarrow> bool" where
  "fuzzyCompare_exact p1 p2 = (\<bar>p1 - p2\<bar> * 1000000000000 \<le> min \<bar>p1\<bar> \<bar>p2\<bar>)"

text \<open>
  The query scenario of the specification: category Apps holds the match
  \<open>foo bar baz\<close>, category Files holds only \<open>foo.txt\<close>.
\<close>

definition queryTree :: tree where
  "queryTree =
     [(\<lparr>displayRole = ''Files'', typeRole = 100, relevanceRole = 1\<rparr>,
       [\<lparr>displayRole = ''foo.txt'', typeRole = 100, relevanceRole = 1\<rparr>]),
      (\<lparr>displayRole = ''Apps'', typeRole = 30, relevanceRole = 1 / 2\<rparr>,
       [\<lparr>displayRole = ''Foo Bar baz'', typeRole = 30, relevanceRole = 1 / 2\<rparr>])]"


text \<open>
  One category whose matches differ in type, differ in relevance only, or agree in both.
\<close>

definition sortTree :: tree where
  "sortTree =
     [(\<lparr>displayRole = ''Apps'', typeRole = 100, relevanceRole = 4 / 5\<rparr>,
       [\<lparr>displayRole = ''first'', typeRole = 100, relevanceRole = 1 / 2\<rparr>,
        \<lparr>displayRole = ''second'', typeRole = 30, relevanceRole = 9 / 10\<rparr>,
        \<lparr>displayRole = ''third'', typeRole = 100, relevanceRole = 4 / 5\<rparr>,
        \<lparr>displayRole = ''fourth'', typeRole = 100, relevanceRole = 4 / 5\<rparr>])]"

text \<open>
  A comparator that orders indexes by their row. It stands in for the comparator of the
  base class in the examples only; Qt's own compares the data of the sort role.
\<close>

definition rowOrder :: "QModelIndex \<Rightarrow> QModelIndex \<Rightarrow> bool" where
  "rowOrder a b = (row a < row b)"


section \<open>The flat list: HideRootLevelProxyModel, DuplicateDetectorProxyModel, ResultsModel\<close>

text \<open>
  A row of a flat model behind the flattening stage: its display text, and the index of
  the results tree that the chain of proxies maps the row to.
\<close>

record flatRow =
  rowDisplay :: string
  treeIndex :: QModelIndex

text \<open>\<^verbatim>\<open>index(row, 0, parent)\<close> of a flat model.\<close>

fun flat_index :: "flatRow list \<Rightarrow> nat \<Rightarrow> QModelIndex \<Rightarrow> QModelIndex" where
  "flat_index rows r InvalidIndex = (if r < length rows then TopIndex r else InvalidIndex)"
| "flat_index rows r (TopIndex i) = InvalidIndex"
| "flat_index rows r (ChildIndex i j) = InvalidIndex"

text \<open>
  \<^verbatim>\<open>KModelIndexProxyMapper::mapLeftToRight\<close> from a flat model to the results tree: an
  index of an existing row goes to that row's tree index, any other index to the invalid
  index.
\<close>

fun mapLeftToRight :: "flatRow list \<Rightarrow> QModelIndex \<Rightarrow> QModelIndex" where
  "mapLeftToRight rows InvalidIndex = InvalidIndex"
| "mapLeftToRight rows (TopIndex r) =
     (if r < length rows then treeIndex (rows ! r) else InvalidIndex)"
| "mapLeftToRight rows (ChildIndex i j) = InvalidIndex"

text \<open>\<^verbatim>\<open>idx.data(Qt::DisplayRole).toString()\<close> on a flat model.\<close>

fun flat_display :: "flatRow list \<Rightarrow> QModelIndex \<Rightarrow> string" where
  "flat_display rows InvalidIndex = []"
| "flat_display rows (TopIndex r) = (if r < length rows then rowDisplay (rows ! r) else [])"
| "flat_display rows (ChildIndex i j) = []"

definition hideRoot_filterAcceptsRow :: "flatRow list \<Rightarrow> nat \<Rightarrow> QModelIndex \<Rightarrow> bool" where
  "hideRoot_filterAcceptsRow rows sourceRow sourceParent =
     (let treeIdx = mapLeftToRight rows (flat_index rows sourceRow sourceParent)
      in isValid (parent treeIdx))"

text \<open>The rows the filter keeps, in order: the source model of the duplicate detector.\<close>

definition hideRootLevel :: "flatRow list \<Rightarrow> flatRow list" where
  "hideRootLevel rows =
     map (\<lambda>r. rows ! r)
       (filter (\<lambda>r. hideRoot_filterAcceptsRow rows r InvalidIndex) [0..<length rows])"

text \<open>
  The flattening of \<^verbatim>\<open>KDescendantsProxyModel\<close> over a tree in its own order: every
  category followed by its matches.
\<close>

definition descendants :: "tree \<Rightarrow> flatRow list" where
  "descendants t =
     concat (map (\<lambda>i. \<lparr>rowDisplay = data_display t (TopIndex i), treeIndex = TopIndex i\<rparr> #
                       map (\<lambda>j. \<lparr>rowDisplay = data_display t (ChildIndex i j),
                                  treeIndex = ChildIndex i j\<rparr>)
                           [0..<rowCount t (TopIndex i)])
                 [0..<length t])"

text \<open>
  The loop of \<^verbatim>\<open>DuplicateDetectorProxyModel::data\<close> for the duplicate role (lines 275 to
  285), from row \<open>i\<close> on.
\<close>

function duplicates_loop :: "flatRow list \<Rightarrow> string \<Rightarrow> nat \<Rightarrow> nat \<Rightarrow> bool" where
  "duplicates_loop rows display i duplicatesCount =
     (if i < length rows then
        (if flat_display rows (flat_index rows i InvalidIndex) = display
         then (if Suc duplicatesCount = 2 then True
               else duplicates_loop rows display (Suc i) (Suc duplicatesCount))
         else duplicates_loop rows display (Suc i) duplicatesCount)
      else False)"
  by pat_completeness auto
termination
  by (relation "measure (\<lambda>(rows, display, i, duplicatesCount). length rows - i)") auto

definition data_DuplicateRole :: "flatRow list \<Rightarrow> QModelIndex \<Rightarrow> bool" where
  "data_DuplicateRole rows idx = duplicates_loop rows (flat_display rows idx) 0 0"

text \<open>
  \<^verbatim>\<open>ResultsModel::run\<close>, \<^verbatim>\<open>runAction\<close> and \<^verbatim>\<open>getMimeData\<close> over the final list \<open>rows\<close>.
  The operations of \<^verbatim>\<open>RunnerResultsModel\<close> they forward to are parameters; a null
  \<^verbatim>\<open>QMimeData\<close> pointer is \<open>None\<close>.
\<close>

definition run :: "flatRow list \<Rightarrow> (QModelIndex \<Rightarrow> bool) \<Rightarrow> QModelIndex \<Rightarrow> bool" where
  "run rows resultsModel_run idx =
     (let resultsIdx = mapLeftToRight rows idx
      in if \<not> isValid resultsIdx then False else resultsModel_run resultsIdx)"

definition runAction ::
  "flatRow list \<Rightarrow> (QModelIndex \<Rightarrow> int \<Rightarrow> bool) \<Rightarrow> QModelIndex \<Rightarrow> int \<Rightarrow> bool" where
  "runAction rows resultsModel_runAction idx actionNumber =
     (let resultsIdx = mapLeftToRight rows idx
      in if \<not> isValid resultsIdx then False
         else resultsModel_runAction resultsIdx actionNumber)"

definition getMimeData ::
  "flatRow list \<Rightarrow> (QModelIndex list \<Rightarrow> 'mime option) \<Rightarrow> QModelIndex \<Rightarrow> 'mime option" where
  "getMimeData rows resultsModel_mimeData idx =
     (let resultsIdx = mapLeftToRight rows idx
      in if \<not> isValid resultsIdx then None else resultsModel_mimeData [resultsIdx])"

text \<open>A final list in which the text \<open>Calculator\<close> occurs twice.\<close>

definition finalRows :: "flatRow list" where
  "finalRows =
     [\<lparr>rowDisplay = ''Calculator'', treeIndex = ChildIndex 0 0\<rparr>,
      \<lparr>rowDisplay = ''calculator'', treeIndex = ChildIndex 0 1\<rparr>,
      \<lparr>rowDisplay = ''Calculator'', treeIndex = ChildIndex 1 0\<rparr>]"

declare distribution_loop.simps [simp del]
declare hasMatch_loop.simps [simp del]
declare duplicates_loop.simps [simp del]


section \<open>The budget of the categories\<close>

subsection \<open>The loop and the budget of the specification\<close>

lemma ceil_quot_eq_div: "ceil_quot a d = - ((- a) div d)"
  unfolding ceil_quot_def by (rule ceiling_divide_eq_div)

lemma ceil_quot_ge_1: "0 < a \<Longrightarrow> 0 < d \<Longrightarrow> 1 \<le> ceil_quot a d"
  unfolding ceil_quot_def by (simp add: le_ceiling_iff)

lemma ceil_quot_le: "0 < a \<Longrightarrow> 1 \<le> d \<Longrightarrow> ceil_quot a d \<le> a"
  unfolding ceil_quot_def
  by (simp add: ceiling_le_iff field_simps mult_le_cancel_left1)

lemma length_spec_budget: "length (spec_budget L n i ib cs) = length cs"
  by (induction cs arbitrary: i ib) (simp_all add: Let_def)

lemma spec_budget_bounds:
  "0 < L \<Longrightarrow> b \<in> set (spec_budget L n i ib cs) \<Longrightarrow> 1 \<le> b \<and> b \<le> L"
proof (induction cs arbitrary: i ib)
  case Nil
  then show ?case by simp
next
  case (Cons c cs)
  have "\<lceil>real_of_int L / real_of_int (int i + 2)\<rceil> \<le> L"
    using ceil_quot_le [of L "int i + 2"] Cons.prems(1) by (simp add: ceil_quot_def)
  with Cons show ?case by (auto simp: Let_def)
qed

text \<open>The loop run from counter i equals the spec budget of the remaining categories\<close>
lemma distribution_loop_spec:
  "i \<le> p \<Longrightarrow> p < length t \<Longrightarrow>
   snd (distribution_loop L t (int p) i ib m) =
     spec_budget L (int (length t)) i ib (drop i (itemCounts t)) ! (p - i)"
proof (induction "p - i" arbitrary: i ib m)
  case 0
  then have ip: "i = p" by simp
  have d: "drop p (itemCounts t) = length (snd (t ! p)) # drop (Suc p) (itemCounts t)"
    using 0(3) by (simp add: itemCounts_def flip: Cons_nth_drop_Suc)
  show ?case
    using 0(3) unfolding ip
    by (subst distribution_loop.simps, subst distribution_loop.simps)
       (simp add: d Let_def ceil_quot_def)
next
  case (Suc k)
  then have lt: "i < p" and il: "i < length t" by simp_all
  have d: "drop i (itemCounts t) = length (snd (t ! i)) # drop (Suc i) (itemCounts t)"
    using il by (simp add: itemCounts_def flip: Cons_nth_drop_Suc)
  have k: "k = p - Suc i" using Suc(2) by simp
  have pi: "p - i = Suc (p - Suc i)" using lt by simp
  show ?case
    using lt il Suc(1) [OF k _ Suc(4)]
    by (subst distribution_loop.simps) (simp add: d Let_def ceil_quot_def pi)
qed


lemma distribution_loop_range:
  assumes "0 < L" and "0 < length t"
  shows "0 \<le> ib \<Longrightarrow> ib \<le> L - 1 + int i \<Longrightarrow>
         0 \<le> fst (distribution_loop L t pr i ib m) \<and>
         fst (distribution_loop L t pr i ib m) \<le> L - 1 + max (int i) (pr + 1) \<and>
         (int i \<le> pr \<longrightarrow> 1 \<le> snd (distribution_loop L t pr i ib m) \<and>
                          snd (distribution_loop L t pr i ib m) \<le> L)"
proof (induction "nat (pr + 1 - int i)" arbitrary: i ib m)
  case 0
  then have "\<not> int i \<le> pr" by simp
  with 0 show ?case by (subst (1 2 3 4) distribution_loop.simps) simp
next
  case (Suc k)
  then have le: "int i \<le> pr" by simp
  define c where "c = ceil_quot L (int (length t))"
  define b where "b = max 1 (min (L - ib - c) (ceil_quot L (int i + 2)))"
  define items where "items = int (rowCount t (index_at t i InvalidIndex))"
  have c1: "1 \<le> c" unfolding c_def using assms by (simp add: ceil_quot_ge_1)
  have b1: "1 \<le> b" unfolding b_def by simp
  have bL: "b \<le> L"
    using ceil_quot_le [of L "int i + 2"] assms(1) unfolding b_def by simp
  have bav: "b \<le> max 1 (L - ib - c)" unfolding b_def by simp
  have items0: "0 \<le> items" unfolding items_def by simp
  have step: "distribution_loop L t pr i ib m =
              distribution_loop L t pr (Suc i) (ib + min items b) b"
    using le by (subst distribution_loop.simps) (simp add: Let_def c_def b_def items_def)
  have k: "k = nat (pr + 1 - int (Suc i))" using Suc(2) by simp
  have lo: "0 \<le> ib + min items b" using Suc.prems(1) items0 b1 by simp
  have hi: "ib + min items b \<le> L - 1 + int (Suc i)"
    using Suc.prems bav c1 by (simp add: min_def max_def split: if_splits)
  note IH = Suc(1) [OF k lo hi, of b]
  show ?case
  proof (cases "int (Suc i) \<le> pr")
    case True
    with IH le show ?thesis unfolding step by (simp add: max_def)
  next
    case False
    then have last: "distribution_loop L t pr (Suc i) (ib + min items b) b = (ib + min items b, b)"
      by (subst distribution_loop.simps) simp
    from False le have "pr = int i" by simp
    with lo hi b1 bL show ?thesis unfolding step last by (simp add: max_def)
  qed
qed

lemma filter_less_upt: "filter (\<lambda>r. int r < M) [0..<k] = [0..<min k (nat M)]"
proof (induction k)
  case 0
  show ?case by simp
next
  case (Suc k)
  show ?case
  proof (cases "int k < M")
    case True
    then have "min k (nat M) = k" "min (Suc k) (nat M) = Suc k" by simp_all
    with True Suc show ?thesis by simp
  next
    case False
    then have "min k (nat M) = nat M" "min (Suc k) (nat M) = nat M" by simp_all
    with False Suc show ?thesis by simp
  qed
qed

lemma filterAcceptsRow_iff:
  "0 < L \<Longrightarrow> filterAcceptsRow L t r (TopIndex i) = (int r < maxItemsInCategory L t (TopIndex i))"
  by (simp add: filterAcceptsRow_def)

lemma visibleRows_eq:
  "0 < L \<Longrightarrow> visibleRows L t i =
     [0..<min (rowCount t (TopIndex i)) (nat (maxItemsInCategory L t (TopIndex i)))]"
  by (simp add: visibleRows_def filterAcceptsRow_iff filter_less_upt)

lemma maxItems_spec:
  "1 < length t \<Longrightarrow> i < length t \<Longrightarrow>
   maxItemsInCategory L t (TopIndex i) = spec_budgets L t ! i"
  using distribution_loop_spec [of 0 i t L 0 L]
  by (simp add: maxItemsInCategory_def spec_budgets_def)

lemma maxItems_single: "length t \<le> 1 \<Longrightarrow> maxItemsInCategory L t p = L"
  by (simp add: maxItemsInCategory_def)

lemma spec_budget_total:
  assumes "0 < L" and "0 < n"
  shows "0 \<le> ib \<Longrightarrow> ib \<le> L - 1 + int i \<Longrightarrow>
         ib + sum_list (map2 (\<lambda>c b. int (min c (nat b))) cs (spec_budget L n i ib cs))
           \<le> L - 1 + int i + int (length cs)"
proof (induction cs arbitrary: i ib)
  case Nil
  then show ?case by simp
next
  case (Cons c cs)
  define q where "q = \<lceil>real_of_int L / real_of_int n\<rceil>"
  define b where "b = max 1 (min (L - ib - q) \<lceil>real_of_int L / real_of_int (int i + 2)\<rceil>)"
  have q1: "1 \<le> q" using ceil_quot_ge_1 [OF assms] by (simp add: q_def ceil_quot_def)
  have b1: "1 \<le> b" unfolding b_def by simp
  have bav: "b \<le> max 1 (L - ib - q)" unfolding b_def by simp
  have eq: "int (min c (nat b)) = min (int c) b" using b1 by simp
  have lo: "0 \<le> ib + min (int c) b" using Cons.prems(1) b1 by simp
  have hi: "ib + min (int c) b \<le> L - 1 + int (Suc i)"
    using Cons.prems bav q1 by (simp add: min_def max_def split: if_splits)
  have unf: "spec_budget L n i ib (c # cs) =
             b # spec_budget L n (Suc i) (ib + min (int c) b) cs"
    by (simp add: Let_def b_def q_def)
  from Cons.IH [OF lo hi] show ?case
    unfolding unf by (simp add: eq)
qed

lemma visibleCount_eq:
  "0 < L \<Longrightarrow> visibleCount L t i =
     min (rowCount t (TopIndex i)) (nat (maxItemsInCategory L t (TopIndex i)))"
  by (simp add: visibleCount_def visibleRows_eq)

lemma visibleCounts_spec:
  assumes "0 < L" and "1 < length t"
  shows "map (visibleCount L t) [0..<length t] =
         map2 (\<lambda>c b. min c (nat b)) (itemCounts t) (spec_budgets L t)"
proof (rule nth_equalityI)
  show "length (map (visibleCount L t) [0..<length t]) =
        length (map2 (\<lambda>c b. min c (nat b)) (itemCounts t) (spec_budgets L t))"
    by (simp add: spec_budgets_def length_spec_budget itemCounts_def)
next
  fix i assume "i < length (map (visibleCount L t) [0..<length t])"
  then have i: "i < length t" by simp
  then show "map (visibleCount L t) [0..<length t] ! i =
        map2 (\<lambda>c b. min c (nat b)) (itemCounts t) (spec_budgets L t) ! i"
    using assms
    by (simp add: visibleCount_eq maxItems_spec spec_budgets_def length_spec_budget itemCounts_def)
qed

lemma visible_total:
  assumes "0 < L"
  shows "int (sum_list (map (visibleCount L t) [0..<length t])) \<le> L + (int (length t) - 1)"
proof -
  consider "length t = 0" | "length t = 1" | "1 < length t" by linarith
  then show ?thesis
  proof cases
    case 1
    with assms show ?thesis by simp
  next
    case 2
    then have "[0..<length t] = [0]" by simp
    with 2 assms show ?thesis by (simp add: visibleCount_eq maxItems_single)
  next
    case 3
    have "int (sum_list (map2 (\<lambda>c b. min c (nat b)) (itemCounts t) (spec_budgets L t)))
          = sum_list (map2 (\<lambda>c b. int (min c (nat b))) (itemCounts t) (spec_budgets L t))"
      by (simp add: sum_list_of_nat [symmetric] comp_def case_prod_unfold del: sum_list_of_nat)
    also have "\<dots> \<le> L - 1 + int (length (itemCounts t))"
    proof -
      have n: "0 < int (length t)" using 3 by (cases t) simp_all
      show ?thesis
        using spec_budget_total [OF assms n, of 0 0 "itemCounts t"] assms
        by (simp add: spec_budgets_def)
    qed
    finally show ?thesis
      using visibleCounts_spec [OF assms 3] by (simp add: itemCounts_def)
  qed
qed



subsection \<open>Evaluating the loop\<close>

lemma distribution_loop_step:
  "int i \<le> pr \<Longrightarrow>
   distribution_loop L t pr i ib m =
     distribution_loop L t pr (Suc i)
       (ib + min (int (rowCount t (index_at t i InvalidIndex)))
               (max 1 (min (L - ib - ceil_quot L (int (rowCount t InvalidIndex)))
                           (ceil_quot L (int i + 2)))))
       (max 1 (min (L - ib - ceil_quot L (int (rowCount t InvalidIndex)))
                   (ceil_quot L (int i + 2))))"
  by (subst distribution_loop.simps) (simp add: Let_def)

lemma distribution_loop_stop:
  "\<not> int i \<le> pr \<Longrightarrow> distribution_loop L t pr i ib m = (ib, m)"
  by (subst distribution_loop.simps) simp

lemma scenario_rowCount:
  "rowCount scenarioTree InvalidIndex = 3"
  "rowCount scenarioTree (TopIndex 0) = 10"
  "rowCount scenarioTree (TopIndex (Suc 0)) = 10"
  "rowCount scenarioTree (TopIndex 2) = 10"
  by (simp_all add: scenarioTree_def someCategory_def)

lemma scenario_index:
  "index_at scenarioTree 0 InvalidIndex = TopIndex 0"
  "index_at scenarioTree (Suc 0) InvalidIndex = TopIndex (Suc 0)"
  "index_at scenarioTree (Suc (Suc 0)) InvalidIndex = TopIndex 2"
  by (simp_all add: scenarioTree_def)

lemma scenario_maxItems:
  "maxItemsInCategory 5 scenarioTree (TopIndex 0) = 3"
  "maxItemsInCategory 5 scenarioTree (TopIndex (Suc 0)) = 1"
  "maxItemsInCategory 5 scenarioTree (TopIndex 2) = 1"
  by (simp_all add: maxItemsInCategory_def distribution_loop_step distribution_loop_stop
        scenario_rowCount scenario_index ceil_quot_def del: rowCount.simps index_at.simps)

lemma spec_budget_Cons:
  "spec_budget L n i ib (c # cs) =
     max 1 (min (L - ib - \<lceil>real_of_int L / real_of_int n\<rceil>)
                \<lceil>real_of_int L / real_of_int (int i + 2)\<rceil>) #
     spec_budget L n (Suc i)
       (ib + min (int c) (max 1 (min (L - ib - \<lceil>real_of_int L / real_of_int n\<rceil>)
                                       \<lceil>real_of_int L / real_of_int (int i + 2)\<rceil>))) cs"
  by (simp add: Let_def)

lemma scenario_spec_budgets: "spec_budgets 5 scenarioTree = [3, 1, 1]"
  by (simp add: spec_budgets_def itemCounts_def scenarioTree_def someCategory_def
        spec_budget_Cons del: spec_budget.simps(2))

lemma single_spec_budgets: "spec_budgets 5 singleTree = [1]"
  by (simp add: spec_budgets_def itemCounts_def singleTree_def someCategory_def
        spec_budget_Cons del: spec_budget.simps(2))

lemma single_maxItems: "maxItemsInCategory 5 singleTree (TopIndex 0) = 5"
  by (simp add: maxItemsInCategory_def singleTree_def)

subsection \<open>The claims on the budget stage\<close>

text \<open>
  C1, as stated: for every limit \<open>L > 0\<close> and every tree, a match row \<open>r\<close> of the category
  at position \<open>i\<close> is visible iff \<open>r\<close> is below the budget that the formula of the
  specification gives that category. This fails for a tree of one category: with limit 5
  the formula gives the only category the budget 1, and the filter accepts its row 1.
\<close>

theorem C1_counterexample:
  "filterAcceptsRow 5 singleTree 1 (TopIndex 0) \<and> \<not> int 1 < spec_budgets 5 singleTree ! 0"
  by (simp add: filterAcceptsRow_def single_maxItems single_spec_budgets)

text \<open>
  C1, amended: for every limit \<open>L > 0\<close> and every tree, a match row \<open>r\<close> of the category
  at position \<open>i\<close> is visible iff \<open>r\<close> is below the budget of the specification's formula
  when the tree has two or more categories, and iff \<open>r\<close> is below the limit when the
  category is the only one.
\<close>

theorem C1_budget_refines_spec:
  assumes "0 < L" and "i < length t"
  shows "filterAcceptsRow L t r (TopIndex i) =
         (int r < (if length t = 1 then L else spec_budgets L t ! i))"
proof (cases "length t = 1")
  case True
  with assms show ?thesis by (simp add: filterAcceptsRow_iff maxItems_single)
next
  case False
  with assms have "1 < length t" by simp
  with assms False show ?thesis by (simp add: filterAcceptsRow_iff maxItems_spec)
qed

theorem C1_budget_refines_spec_witness:
  "(0::int) < 5 \<and> 2 < length scenarioTree \<and>
   filterAcceptsRow 5 scenarioTree 0 (TopIndex 2) \<and>
   \<not> filterAcceptsRow 5 scenarioTree 1 (TopIndex 2)"
  using C1_budget_refines_spec [of 5 2 scenarioTree 0]
        C1_budget_refines_spec [of 5 2 scenarioTree 1]
  by (simp add: scenario_spec_budgets) (simp add: scenarioTree_def)

text \<open>
  C4: with limit 5 and three categories of ten matches each, exactly three matches of the
  first category are visible, one of the second and one of the third.
\<close>

theorem C4_scenario_counts:
  "visibleRows 5 scenarioTree 0 = [0, 1, 2] \<and> visibleCount 5 scenarioTree 0 = 3 \<and>
   visibleRows 5 scenarioTree 1 = [0] \<and> visibleCount 5 scenarioTree 1 = 1 \<and>
   visibleRows 5 scenarioTree 2 = [0] \<and> visibleCount 5 scenarioTree 2 = 1"
  by (simp add: visibleCount_eq visibleRows_eq scenario_maxItems scenario_rowCount upt_rec
        del: rowCount.simps)

text \<open>
  C5: for every limit \<open>L > 0\<close> and every tree, every non-empty category is visible
  together with its first match, and the number of visible matches of all categories together is at
  most \<open>L\<close> plus the number of categories minus one.
\<close>

theorem C5_budget_bounds:
  assumes "0 < L"
  shows "(\<forall>i<length t. snd (t ! i) \<noteq> [] \<longrightarrow>
            filterAcceptsRow L t i InvalidIndex \<and>
            filterAcceptsRow L t 0 (TopIndex i) \<and> 1 \<le> visibleCount L t i) \<and>
         int (sum_list (map (visibleCount L t) [0..<length t])) \<le> L + (int (length t) - 1)"
proof (intro conjI allI impI)
  fix i assume i: "i < length t" and ne: "snd (t ! i) \<noteq> []"
  show "filterAcceptsRow L t i InvalidIndex" by (simp add: filterAcceptsRow_def)
  have m: "1 \<le> maxItemsInCategory L t (TopIndex i)"
  proof (cases "1 < length t")
    case True
    have "t \<noteq> []" using i by auto
    then have "0 < length t" by simp
    from distribution_loop_range [OF assms this, of 0 0 "int i" L]
    show ?thesis using assms True by (simp add: maxItemsInCategory_def)
  next
    case False
    with assms show ?thesis by (simp add: maxItemsInCategory_def)
  qed
  then show "filterAcceptsRow L t 0 (TopIndex i)"
    using assms by (simp add: filterAcceptsRow_iff)
  from ne have "1 \<le> length (snd (t ! i))" by (cases "snd (t ! i)") simp_all
  with m i show "1 \<le> visibleCount L t i"
    using assms by (simp add: visibleCount_eq)
next
  show "int (sum_list (map (visibleCount L t) [0..<length t])) \<le> L + (int (length t) - 1)"
    by (rule visible_total [OF assms])
qed

theorem C5_budget_bounds_witness:
  "(0::int) < 5 \<and> 1 < length scenarioTree \<and> snd (scenarioTree ! 1) \<noteq> [] \<and>
   filterAcceptsRow 5 scenarioTree 0 (TopIndex 1) \<and> 1 \<le> visibleCount 5 scenarioTree 1 \<and>
   int (sum_list (map (visibleCount 5 scenarioTree) [0..<length scenarioTree]))
     \<le> 5 + (int (length scenarioTree) - 1)"
proof -
  have L: "(0::int) < 5" by simp
  have i: "1 < length scenarioTree" and ne: "snd (scenarioTree ! 1) \<noteq> []"
    by (simp_all add: scenarioTree_def someCategory_def)
  note c5 = C5_budget_bounds [OF L, of scenarioTree]
  note first = c5 [THEN conjunct1, rule_format, OF i ne]
  note total = c5 [THEN conjunct2]
  show ?thesis
    by (intro conjI L i ne first [THEN conjunct2, THEN conjunct1]
          first [THEN conjunct2, THEN conjunct2] total)
qed

text \<open>
  C10: for every limit \<open>L > 0\<close> and every tree of exactly one category, the visible
  matches of that category are exactly its first \<open>min (number of matches) L\<close> ones, while
  the formula of the specification gives that category the budget 1.
\<close>

theorem C10_single_category:
  assumes "0 < L" and "length t = 1"
  shows "visibleRows L t 0 = [0..<min (length (snd (t ! 0))) (nat L)] \<and>
         spec_budgets L t = [1]"
proof
  show "visibleRows L t 0 = [0..<min (length (snd (t ! 0))) (nat L)]"
    using assms by (simp add: visibleRows_eq maxItems_single)
  obtain c where t: "t = [c]" using assms(2) by (cases t) auto
  have "\<lceil>real_of_int L / 2\<rceil> \<ge> 1" using assms(1) by (simp add: le_ceiling_iff)
  then show "spec_budgets L t = [1]"
    by (simp add: t spec_budgets_def itemCounts_def Let_def)
qed

theorem C10_single_category_witness:
  "(0::int) < 5 \<and> length singleTree = 1 \<and>
   visibleRows 5 singleTree 0 = [0, 1, 2, 3, 4] \<and> spec_budgets 5 singleTree = [1]"
  using C10_single_category [of 5 singleTree]
  by (simp add: singleTree_def someCategory_def upt_rec)


section \<open>The sort model\<close>

subsection \<open>The loops of the sort model\<close>

lemma containsAllWords_iff:
  "containsAllWords foldCase display ws acc =
     (acc \<and> (\<forall>w\<in>set ws. contains_ci foldCase display w))"
  by (induction ws arbitrary: acc) auto

lemma hasMatch_loop_step:
  "i < rowCount t categoryIdx \<Longrightarrow>
   hasMatch_loop foldCase ws t categoryIdx i =
     (containsAllWords foldCase (data_display t (index_at t i categoryIdx)) ws True \<or>
      hasMatch_loop foldCase ws t categoryIdx (Suc i))"
  by (subst hasMatch_loop.simps) (simp add: Let_def)

lemma hasMatch_loop_stop:
  "\<not> i < rowCount t categoryIdx \<Longrightarrow> hasMatch_loop foldCase ws t categoryIdx i = False"
  by (subst hasMatch_loop.simps) simp

lemma hasMatch_loop_iff:
  "hasMatch_loop foldCase ws t categoryIdx i =
     (\<exists>j. i \<le> j \<and> j < rowCount t categoryIdx \<and>
          (\<forall>w\<in>set ws. contains_ci foldCase (data_display t (index_at t j categoryIdx)) w))"
proof (induction "rowCount t categoryIdx - i" arbitrary: i)
  case 0
  then show ?case by (simp add: hasMatch_loop_stop)
next
  case (Suc k)
  then have lt: "i < rowCount t categoryIdx" and k: "k = rowCount t categoryIdx - Suc i"
    by simp_all
  have split: "\<And>P. (\<exists>j. i \<le> j \<and> P j) = (P i \<or> (\<exists>j. Suc i \<le> j \<and> P j))"
    by (metis Suc_leD Suc_le_eq le_eq_less_or_eq order_refl)
  show ?case
    unfolding hasMatch_loop_step [OF lt] Suc(1) [OF k] containsAllWords_iff
    by (subst split) (use lt in simp)
qed

lemma categoryHasMatch_iff:
  assumes "c < length t"
  shows "categoryHasMatchWithAllWords foldCase ws t (TopIndex c) =
         (\<exists>m\<in>set (snd (t ! c)). \<forall>w\<in>set ws. sublist (map foldCase w) (map foldCase (displayRole m)))"
proof -
  have "categoryHasMatchWithAllWords foldCase ws t (TopIndex c) =
        (\<exists>j<length (snd (t ! c)). \<forall>w\<in>set ws. contains_ci foldCase (displayRole (snd (t ! c) ! j)) w)"
    using assms
    by (auto simp: categoryHasMatchWithAllWords_def hasMatch_loop_iff data_display_def)
  then show ?thesis
    unfolding contains_ci_def by (simp add: Bex_def in_set_conv_nth) blast
qed



lemma queryTree_rowCount:
  "rowCount queryTree (TopIndex 0) = 1"
  "rowCount queryTree (TopIndex (Suc 0)) = 1"
  by (simp_all add: queryTree_def)

lemma queryTree_display:
  "data_display queryTree (index_at queryTree 0 (TopIndex 0)) = ''foo.txt''"
  "data_display queryTree (index_at queryTree 0 (TopIndex (Suc 0))) = ''Foo Bar baz''"
  by (simp_all add: queryTree_def data_display_def)

lemma queryTree_type:
  "data_type queryTree (TopIndex 0) = 100"
  "data_type queryTree (TopIndex (Suc 0)) = 30"
  by (simp_all add: queryTree_def data_type_def)

lemma contains_ci_examples:
  "contains_ci asciiFold ''foo.txt'' ''foo''"
  "\<not> contains_ci asciiFold ''foo.txt'' ''bar''"
  "contains_ci asciiFold ''Foo Bar baz'' ''foo''"
  "contains_ci asciiFold ''Foo Bar baz'' ''bar''"
  by (simp_all add: contains_ci_def asciiFold_def sublist_code prefix_code)

lemma queryTree_hasMatch:
  "\<not> categoryHasMatchWithAllWords asciiFold [''foo'', ''bar''] queryTree (TopIndex 0)"
  "categoryHasMatchWithAllWords asciiFold [''foo'', ''bar''] queryTree (TopIndex (Suc 0))"
  "categoryHasMatchWithAllWords asciiFold [''foo''] queryTree (TopIndex 0)"
  "categoryHasMatchWithAllWords asciiFold [''foo''] queryTree (TopIndex (Suc 0))"
  by (simp_all add: categoryHasMatchWithAllWords_def hasMatch_loop_step hasMatch_loop_stop
        queryTree_rowCount queryTree_display contains_ci_examples
        del: rowCount.simps index_at.simps)

subsection \<open>The claims on the sort stage\<close>

text \<open>
  C2: when the block on categories does not decide the comparison of \<open>a\<close> and \<open>b\<close>
  (one of them is not a top-level entry, or the two categories agree on the word
  predicate), then: if the types differ, \<open>a\<close> ranks below \<open>b\<close> exactly when the type of
  \<open>a\<close> is lower; if the types are equal and the relevances are not approximately equal,
  \<open>a\<close> ranks below \<open>b\<close> exactly when the relevance of \<open>a\<close> is lower; if the types are
  equal and the relevances approximately equal, the result is that of the comparator of
  the base class.
\<close>

theorem C2_type_then_relevance:
  assumes "\<not> (\<not> isValid (parent a) \<and> \<not> isValid (parent b) \<and>
              categoryHasMatchWithAllWords foldCase ws t a \<noteq>
              categoryHasMatchWithAllWords foldCase ws t b)"
  shows "(data_type t a \<noteq> data_type t b \<longrightarrow>
            lessThan fuzzy base foldCase ws t a b = (data_type t a < data_type t b)) \<and>
         (data_type t a = data_type t b \<and> \<not> fuzzy (data_relevance t a) (data_relevance t b) \<longrightarrow>
            lessThan fuzzy base foldCase ws t a b = (data_relevance t a < data_relevance t b)) \<and>
         (data_type t a = data_type t b \<and> fuzzy (data_relevance t a) (data_relevance t b) \<longrightarrow>
            lessThan fuzzy base foldCase ws t a b = base a b)"
  using assms
  by (auto simp: lessThan_def lessThan_byTypeAndRelevance_def Let_def)

lemma sortTree_data:
  "data_type sortTree (ChildIndex 0 0) = 100"
  "data_type sortTree (ChildIndex 0 (Suc 0)) = 30"
  "data_type sortTree (ChildIndex 0 2) = 100"
  "data_type sortTree (ChildIndex 0 3) = 100"
  "data_relevance sortTree (ChildIndex 0 0) = 1 / 2"
  "data_relevance sortTree (ChildIndex 0 2) = 4 / 5"
  "data_relevance sortTree (ChildIndex 0 3) = 4 / 5"
  by (simp_all add: sortTree_def data_type_def data_relevance_def)

theorem C2_type_then_relevance_witness:
  "isValid (parent (ChildIndex 0 0)) \<and>
   data_type sortTree (ChildIndex 0 1) \<noteq> data_type sortTree (ChildIndex 0 0) \<and>
   lessThan fuzzyCompare_exact rowOrder asciiFold [] sortTree (ChildIndex 0 1) (ChildIndex 0 0) \<and>
   data_type sortTree (ChildIndex 0 0) = data_type sortTree (ChildIndex 0 2) \<and>
   \<not> fuzzyCompare_exact (data_relevance sortTree (ChildIndex 0 0))
                         (data_relevance sortTree (ChildIndex 0 2)) \<and>
   lessThan fuzzyCompare_exact rowOrder asciiFold [] sortTree (ChildIndex 0 0) (ChildIndex 0 2) \<and>
   data_type sortTree (ChildIndex 0 2) = data_type sortTree (ChildIndex 0 3) \<and>
   fuzzyCompare_exact (data_relevance sortTree (ChildIndex 0 2))
                      (data_relevance sortTree (ChildIndex 0 3)) \<and>
   lessThan fuzzyCompare_exact rowOrder asciiFold [] sortTree (ChildIndex 0 2) (ChildIndex 0 3) \<and>
   \<not> lessThan fuzzyCompare_exact rowOrder asciiFold [] sortTree (ChildIndex 0 3) (ChildIndex 0 2)"
  using C2_type_then_relevance
          [of "ChildIndex 0 1" "ChildIndex 0 0" asciiFold "[]" sortTree fuzzyCompare_exact rowOrder]
        C2_type_then_relevance
          [of "ChildIndex 0 0" "ChildIndex 0 2" asciiFold "[]" sortTree fuzzyCompare_exact rowOrder]
        C2_type_then_relevance
          [of "ChildIndex 0 2" "ChildIndex 0 3" asciiFold "[]" sortTree fuzzyCompare_exact rowOrder]
        C2_type_then_relevance
          [of "ChildIndex 0 3" "ChildIndex 0 2" asciiFold "[]" sortTree fuzzyCompare_exact rowOrder]
  by (simp add: sortTree_data fuzzyCompare_exact_def rowOrder_def)

text \<open>
  C3: for two top-level entries \<open>a\<close> and \<open>b\<close> of the tree, the predicate computed for a
  category is true iff one of its matches has a display text that contains every word of
  the query as a case-insensitive substring; when exactly one of the two categories
  satisfies it, that category outranks the other whatever their types and relevances;
  when both or neither satisfy it, the comparison is the one by type and relevance.
\<close>

theorem C3_category_word_boost:
  assumes "a < length t" and "b < length t"
  shows "(categoryHasMatchWithAllWords foldCase ws t (TopIndex a) =
            (\<exists>m\<in>set (snd (t ! a)). \<forall>w\<in>set ws.
                sublist (map foldCase w) (map foldCase (displayRole m)))) \<and>
         (categoryHasMatchWithAllWords foldCase ws t (TopIndex a) \<and>
          \<not> categoryHasMatchWithAllWords foldCase ws t (TopIndex b) \<longrightarrow>
            \<not> lessThan fuzzy base foldCase ws t (TopIndex a) (TopIndex b) \<and>
            lessThan fuzzy base foldCase ws t (TopIndex b) (TopIndex a)) \<and>
         (categoryHasMatchWithAllWords foldCase ws t (TopIndex a) =
          categoryHasMatchWithAllWords foldCase ws t (TopIndex b) \<longrightarrow>
            lessThan fuzzy base foldCase ws t (TopIndex a) (TopIndex b) =
              lessThan_byTypeAndRelevance fuzzy base t (TopIndex a) (TopIndex b))"
proof (intro conjI)
  show "categoryHasMatchWithAllWords foldCase ws t (TopIndex a) =
        (\<exists>m\<in>set (snd (t ! a)). \<forall>w\<in>set ws.
            sublist (map foldCase w) (map foldCase (displayRole m)))"
    by (rule categoryHasMatch_iff [OF assms(1)])
qed (simp_all add: lessThan_def Let_def)

theorem C3_category_word_boost_witness:
  "(1::nat) < length queryTree \<and> (0::nat) < length queryTree \<and>
   categoryHasMatchWithAllWords asciiFold [''foo'', ''bar''] queryTree (TopIndex 1) \<and>
   \<not> categoryHasMatchWithAllWords asciiFold [''foo'', ''bar''] queryTree (TopIndex 0) \<and>
   data_type queryTree (TopIndex 1) < data_type queryTree (TopIndex 0) \<and>
   \<not> lessThan fuzzyCompare_exact rowOrder asciiFold [''foo'', ''bar''] queryTree
        (TopIndex 1) (TopIndex 0) \<and>
   lessThan fuzzyCompare_exact rowOrder asciiFold [''foo'', ''bar''] queryTree
        (TopIndex 0) (TopIndex 1) \<and>
   categoryHasMatchWithAllWords asciiFold [''foo''] queryTree (TopIndex 1) =
     categoryHasMatchWithAllWords asciiFold [''foo''] queryTree (TopIndex 0) \<and>
   lessThan fuzzyCompare_exact rowOrder asciiFold [''foo''] queryTree (TopIndex 1) (TopIndex 0)"
  using C3_category_word_boost
          [of 1 queryTree 0 asciiFold "[''foo'', ''bar'']" fuzzyCompare_exact rowOrder]
        C3_category_word_boost
          [of 1 queryTree 0 asciiFold "[''foo'']" fuzzyCompare_exact rowOrder]
  by (simp add: queryTree_hasMatch queryTree_type lessThan_byTypeAndRelevance_def)
     (simp add: queryTree_def)



subsection \<open>The query string\<close>

lemma split_from_words:
  "sep \<notin> set cur \<Longrightarrow> \<forall>w\<in>set (split_from sep cur s). w \<noteq> [] \<and> sep \<notin> set w"
proof (induction s arbitrary: cur)
  case Nil
  then show ?case by simp
next
  case (Cons c s)
  have e: "\<forall>w\<in>set (split_from sep [] s). w \<noteq> [] \<and> sep \<notin> set w"
    using Cons.IH [of "[]"] by simp
  have n: "c \<noteq> sep \<Longrightarrow> \<forall>w\<in>set (split_from sep (cur @ [c]) s). w \<noteq> [] \<and> sep \<notin> set w"
    using Cons.IH [of "cur @ [c]"] Cons.prems by simp
  show ?case
  proof (cases "c = sep")
    case True
    with e Cons.prems show ?thesis by simp
  next
    case False
    with n show ?thesis by simp
  qed
qed

lemma split_from_concat:
  "concat (split_from sep cur s) = cur @ filter (\<lambda>c. c \<noteq> sep) s"
  by (induction s arbitrary: cur) auto

text \<open>A run without the separator is read as one piece, up to the next separator.\<close>

lemma split_from_run:
  "sep \<notin> set w \<Longrightarrow>
   split_from sep cur (w @ sep # rest) =
     (if cur @ w = [] then split_from sep [] rest else (cur @ w) # split_from sep [] rest)"
  by (induction w arbitrary: cur) auto

lemma split_from_last_run:
  "sep \<notin> set w \<Longrightarrow> split_from sep cur w = (if cur @ w = [] then [] else [cur @ w])"
  by (induction w arbitrary: cur) auto

text \<open>
  C8, as stated: the query is tokenized on whitespace, and every change of the query
  string invalidates the ordering. Both parts fail: a tab does not separate words, and
  after the query \<open>a b\<close> the different query \<open>a  b\<close> (two spaces) leaves the number of
  invalidations as it was.
\<close>

theorem C8_counterexample:
  "split_skipEmptyParts (CHR '' '') [CHR ''a'', CHR 0x09, CHR ''b''] = [[CHR ''a'', CHR 0x09, CHR ''b'']] \<and>
   ''a  b'' \<noteq> ''a b'' \<and>
   invalidations (setQueryString ''a  b''
       (setQueryString ''a b'' \<lparr>m_words = [], invalidations = 0\<rparr>)) =
   invalidations (setQueryString ''a b'' \<lparr>m_words = [], invalidations = 0\<rparr>)"
  by (simp add: setQueryString_def split_skipEmptyParts_def)

text \<open>
  The two equations of a run determine the splitter: any function that satisfies them is
  \<open>split_skipEmptyParts\<close>.
\<close>

lemma split_skipEmptyParts_unique:
  assumes run: "\<And>w rest. sep \<notin> set w \<Longrightarrow>
                  f (w @ sep # rest) = (if w = [] then f rest else w # f rest)"
      and last: "\<And>w. sep \<notin> set w \<Longrightarrow> f w = (if w = [] then [] else [w])"
  shows "f s = split_skipEmptyParts sep s"
proof (induction "length s" arbitrary: s rule: less_induct)
  case less
  show ?case
  proof (cases "sep \<in> set s")
    case False
    then show ?thesis
      using last [of s] split_from_last_run [of sep s "[]"]
      by (simp add: split_skipEmptyParts_def)
  next
    case True
    then obtain w rest where s: "s = w @ sep # rest" and w: "sep \<notin> set w"
      by (meson split_list_first)
    have "length rest < length s" using s by simp
    then have "f rest = split_skipEmptyParts sep rest" by (rule less)
    then show ?thesis
      using run [OF w, of rest] split_from_run [OF w, of "[]" rest]
      by (simp add: s split_skipEmptyParts_def)
  qed
qed

text \<open>
  C8, amended: the query is split at the space character and nowhere else. A piece \<open>w\<close>
  without a space that is followed by a space is the next word, unless it is empty, and
  the rest of the query is split in the same way; a query without a space is a single
  word, whatever other whitespace it holds, or no word when it is empty. Hence every word
  is non-empty and free of spaces, and the words in order make up the query with its
  spaces removed. Setting a query stores this word list and invalidates the ordering
  exactly when the word list differs from the stored one: after the query \<open>q\<close>, setting
  \<open>q'\<close> leaves the ordering alone iff \<open>q'\<close> and \<open>q\<close> have the same words.
\<close>

theorem C8_setQueryString:
  "(CHR '' '' \<notin> set w \<longrightarrow>
      split_skipEmptyParts (CHR '' '') (w @ CHR '' '' # rest) =
        (if w = [] then split_skipEmptyParts (CHR '' '') rest
         else w # split_skipEmptyParts (CHR '' '') rest)) \<and>
   (CHR '' '' \<notin> set w \<longrightarrow>
      split_skipEmptyParts (CHR '' '') w = (if w = [] then [] else [w])) \<and>
   (\<forall>x\<in>set (split_skipEmptyParts (CHR '' '') q). x \<noteq> [] \<and> CHR '' '' \<notin> set x) \<and>
   concat (split_skipEmptyParts (CHR '' '') q) = filter (\<lambda>c. c \<noteq> CHR '' '') q \<and>
   m_words (setQueryString q s) = split_skipEmptyParts (CHR '' '') q \<and>
   invalidations (setQueryString q s) =
     (if m_words s \<noteq> split_skipEmptyParts (CHR '' '') q
      then Suc (invalidations s) else invalidations s) \<and>
   (invalidations (setQueryString q' (setQueryString q s)) =
      invalidations (setQueryString q s)) =
     (split_skipEmptyParts (CHR '' '') q' = split_skipEmptyParts (CHR '' '') q)"
proof (intro conjI ballI impI)
  assume "CHR '' '' \<notin> set w"
  then show "split_skipEmptyParts (CHR '' '') (w @ CHR '' '' # rest) =
        (if w = [] then split_skipEmptyParts (CHR '' '') rest
         else w # split_skipEmptyParts (CHR '' '') rest)"
    using split_from_run [of "CHR '' ''" w "[]" rest] by (simp add: split_skipEmptyParts_def)
next
  assume "CHR '' '' \<notin> set w"
  then show "split_skipEmptyParts (CHR '' '') w = (if w = [] then [] else [w])"
    using split_from_last_run [of "CHR '' ''" w "[]"] by (simp add: split_skipEmptyParts_def)
next
  fix x assume "x \<in> set (split_skipEmptyParts (CHR '' '') q)"
  then show "x \<noteq> []" and "CHR '' '' \<notin> set x"
    using split_from_words [of "CHR '' ''" "[]" q]
    by (simp_all add: split_skipEmptyParts_def)
next
  have m: "m_words (setQueryString q s) = split_skipEmptyParts (CHR '' '') q"
    by (simp add: setQueryString_def Let_def)
  show "(invalidations (setQueryString q' (setQueryString q s)) =
      invalidations (setQueryString q s)) =
     (split_skipEmptyParts (CHR '' '') q' = split_skipEmptyParts (CHR '' '') q)"
    using m by (auto simp: setQueryString_def [of q'] Let_def)
qed (simp_all add: split_skipEmptyParts_def split_from_concat setQueryString_def Let_def)

theorem C8_setQueryString_witness:
  "CHR '' '' \<notin> set ''foo'' \<and>
   split_skipEmptyParts (CHR '' '') (''foo'' @ CHR '' '' # '' bar '') =
     ''foo'' # split_skipEmptyParts (CHR '' '') '' bar '' \<and>
   CHR '' '' \<notin> set [CHR ''a'', CHR 0x09, CHR ''b''] \<and>
   split_skipEmptyParts (CHR '' '') [CHR ''a'', CHR 0x09, CHR ''b''] =
     [[CHR ''a'', CHR 0x09, CHR ''b'']] \<and>
   split_skipEmptyParts (CHR '' '') '' foo  bar '' = [''foo'', ''bar''] \<and>
   ''bar'' \<in> set (split_skipEmptyParts (CHR '' '') '' foo  bar '') \<and>
   ''bar'' \<noteq> [] \<and> CHR '' '' \<notin> set ''bar'' \<and>
   concat (split_skipEmptyParts (CHR '' '') '' foo  bar '') = ''foobar'' \<and>
   m_words (setQueryString '' foo  bar '' \<lparr>m_words = [''foo''], invalidations = 3\<rparr>)
     = [''foo'', ''bar''] \<and>
   invalidations (setQueryString '' foo  bar '' \<lparr>m_words = [''foo''], invalidations = 3\<rparr>) = 4 \<and>
   invalidations (setQueryString ''foo '' \<lparr>m_words = [''foo''], invalidations = 3\<rparr>) = 3 \<and>
   invalidations (setQueryString ''foo   bar''
       (setQueryString '' foo  bar '' \<lparr>m_words = [''foo''], invalidations = 3\<rparr>)) = 4"
  using C8_setQueryString [of "''foo''" "'' bar ''" "'' foo  bar ''"
               "\<lparr>m_words = [''foo''], invalidations = 3\<rparr>" "''foo   bar''"]
        C8_setQueryString [of "[CHR ''a'', CHR 0x09, CHR ''b'']" "[]" "''foo ''"
               "\<lparr>m_words = [''foo''], invalidations = 3\<rparr>" "''foo''"]
  by (simp add: split_skipEmptyParts_def)


section \<open>The flat list\<close>

subsection \<open>The duplicate detector\<close>

lemma flat_display_row:
  "i < length rows \<Longrightarrow> flat_display rows (flat_index rows i InvalidIndex) = rowDisplay (rows ! i)"
  by simp

lemma duplicates_loop_hit:
  "i < length rows \<Longrightarrow> rowDisplay (rows ! i) = display \<Longrightarrow>
   duplicates_loop rows display i cnt =
     (Suc cnt = 2 \<or> duplicates_loop rows display (Suc i) (Suc cnt))"
  by (subst duplicates_loop.simps) simp

lemma duplicates_loop_miss:
  "i < length rows \<Longrightarrow> rowDisplay (rows ! i) \<noteq> display \<Longrightarrow>
   duplicates_loop rows display i cnt = duplicates_loop rows display (Suc i) cnt"
  by (subst duplicates_loop.simps) simp

lemma duplicates_loop_stop:
  "\<not> i < length rows \<Longrightarrow> duplicates_loop rows display i cnt = False"
  by (subst duplicates_loop.simps) simp

lemma duplicates_loop_count:
  "cnt < 2 \<Longrightarrow>
   duplicates_loop rows display i cnt =
     (2 \<le> cnt + length (filter (\<lambda>x. rowDisplay x = display) (drop i rows)))"
proof (induction "length rows - i" arbitrary: i cnt)
  case 0
  then show ?case by (simp add: duplicates_loop_stop)
next
  case (Suc k)
  then have lt: "i < length rows" and k: "k = length rows - Suc i" by simp_all
  have d: "drop i rows = rows ! i # drop (Suc i) rows"
    using lt by (simp add: Cons_nth_drop_Suc)
  show ?case
  proof (cases "rowDisplay (rows ! i) = display")
    case True
    show ?thesis
    proof (cases "Suc cnt = 2")
      case True
      with \<open>rowDisplay (rows ! i) = display\<close> lt show ?thesis
        by (simp add: duplicates_loop_hit d)
    next
      case False
      with Suc.prems have "Suc cnt < 2" by simp
      from Suc(1) [OF k this] True lt False show ?thesis
        by (simp add: duplicates_loop_hit d)
    qed
  next
    case False
    from Suc(1) [OF k Suc.prems] False lt show ?thesis
      by (simp add: duplicates_loop_miss d)
  qed
qed

lemma length_filter_display:
  "length (filter (\<lambda>x. rowDisplay x = display) rows) = count_list (map rowDisplay rows) display"
  by (induction rows) simp_all

lemma data_DuplicateRole_count:
  "data_DuplicateRole rows idx =
     (2 \<le> count_list (map rowDisplay rows) (flat_display rows idx))"
  by (simp add: data_DuplicateRole_def duplicates_loop_count length_filter_display)

lemma count_list_ge_2_iff:
  assumes "r < length xs"
  shows "2 \<le> count_list xs (xs ! r) \<longleftrightarrow> (\<exists>k<length xs. k \<noteq> r \<and> xs ! k = xs ! r)"
proof -
  have xs: "xs = take r xs @ xs ! r # drop (Suc r) xs"
    using assms by (rule id_take_nth_drop)
  have "count_list xs (xs ! r) =
        count_list (take r xs) (xs ! r) + 1 + count_list (drop (Suc r) xs) (xs ! r)"
    by (subst xs) simp
  then have "2 \<le> count_list xs (xs ! r) \<longleftrightarrow>
             xs ! r \<in> set (take r xs) \<or> xs ! r \<in> set (drop (Suc r) xs)"
    using count_list_0_iff [of "take r xs" "xs ! r"] count_list_0_iff [of "drop (Suc r) xs" "xs ! r"]
    by linarith
  also have "\<dots> \<longleftrightarrow> (\<exists>k<length xs. k \<noteq> r \<and> xs ! k = xs ! r)"
  proof
    assume "xs ! r \<in> set (take r xs) \<or> xs ! r \<in> set (drop (Suc r) xs)"
    then show "\<exists>k<length xs. k \<noteq> r \<and> xs ! k = xs ! r"
    proof
      assume "xs ! r \<in> set (take r xs)"
      then obtain k where "k < length (take r xs)" "take r xs ! k = xs ! r"
        by (auto simp: in_set_conv_nth)
      then have "k < length xs \<and> k \<noteq> r \<and> xs ! k = xs ! r" by simp
      then show ?thesis by blast
    next
      assume "xs ! r \<in> set (drop (Suc r) xs)"
      then obtain k where "k < length (drop (Suc r) xs)" "drop (Suc r) xs ! k = xs ! r"
        by (auto simp: in_set_conv_nth)
      then have "Suc r + k < length xs \<and> Suc r + k \<noteq> r \<and> xs ! (Suc r + k) = xs ! r" by simp
      then show ?thesis by blast
    qed
  next
    assume "\<exists>k<length xs. k \<noteq> r \<and> xs ! k = xs ! r"
    then obtain k where k: "k < length xs" "k \<noteq> r" "xs ! k = xs ! r" by blast
    show "xs ! r \<in> set (take r xs) \<or> xs ! r \<in> set (drop (Suc r) xs)"
    proof (cases "k < r")
      case True
      then have "take r xs ! k = xs ! r" "k < length (take r xs)" using k by simp_all
      then show ?thesis by (metis nth_mem)
    next
      case False
      with k have "Suc r \<le> k" by simp
      then obtain m where m: "k = Suc r + m" using le_Suc_ex by blast
      then have "drop (Suc r) xs ! m = xs ! r" "m < length (drop (Suc r) xs)" using k by simp_all
      then show ?thesis by (metis nth_mem)
    qed
  qed
  finally show ?thesis .
qed

text \<open>
  C6: for every row \<open>r\<close> of the final list the duplicate flag is true iff the display text
  of the row occurs two or more times in the list, that is, iff some other row has exactly
  the same display text.
\<close>

theorem C6_duplicate_flag:
  assumes "r < length rows"
  shows "data_DuplicateRole rows (TopIndex r) =
           (2 \<le> count_list (map rowDisplay rows) (rowDisplay (rows ! r))) \<and>
         data_DuplicateRole rows (TopIndex r) =
           (\<exists>k<length rows. k \<noteq> r \<and> rowDisplay (rows ! k) = rowDisplay (rows ! r))"
proof -
  have cnt: "data_DuplicateRole rows (TopIndex r) =
           (2 \<le> count_list (map rowDisplay rows) (rowDisplay (rows ! r)))"
    using assms by (simp add: data_DuplicateRole_count)
  moreover have "(2 \<le> count_list (map rowDisplay rows) (rowDisplay (rows ! r))) =
           (\<exists>k<length rows. k \<noteq> r \<and> rowDisplay (rows ! k) = rowDisplay (rows ! r))"
    using count_list_ge_2_iff [of r "map rowDisplay rows"] assms by auto
  ultimately show ?thesis by simp
qed

theorem C6_duplicate_flag_witness:
  "(0::nat) < length finalRows \<and> (1::nat) < length finalRows \<and> (2::nat) < length finalRows \<and>
   data_DuplicateRole finalRows (TopIndex 0) \<and>
   \<not> data_DuplicateRole finalRows (TopIndex 1) \<and>
   data_DuplicateRole finalRows (TopIndex 2)"
  using C6_duplicate_flag [of 0 finalRows, THEN conjunct1]
        C6_duplicate_flag [of 1 finalRows, THEN conjunct1]
        C6_duplicate_flag [of 2 finalRows, THEN conjunct1]
  by (simp add: finalRows_def)

subsection \<open>The filter of the root level\<close>

lemma hideRoot_filterAcceptsRow_iff:
  "hideRoot_filterAcceptsRow rows r InvalidIndex =
     (r < length rows \<and> isValid (parent (treeIndex (rows ! r))))"
  by (simp add: hideRoot_filterAcceptsRow_def)

lemma map_nth_filter_upt:
  "map (\<lambda>r. xs ! r) (filter (\<lambda>r. P (xs ! r)) [0..<length xs]) = filter P xs"
proof (induction xs rule: rev_induct)
  case Nil
  show ?case by simp
next
  case (snoc x xs)
  have "map (\<lambda>r. (xs @ [x]) ! r) (filter (\<lambda>r. P ((xs @ [x]) ! r)) [0..<length xs]) =
        map (\<lambda>r. xs ! r) (filter (\<lambda>r. P (xs ! r)) [0..<length xs])"
    by (auto simp: nth_append intro!: map_cong filter_cong)
  with snoc show ?case by simp
qed

lemma hideRootLevel_filter:
  "hideRootLevel rows = filter (\<lambda>x. isValid (parent (treeIndex x))) rows"
proof -
  have "filter (\<lambda>r. hideRoot_filterAcceptsRow rows r InvalidIndex) [0..<length rows] =
        filter (\<lambda>r. isValid (parent (treeIndex (rows ! r)))) [0..<length rows]"
    by (rule filter_cong) (simp_all add: hideRoot_filterAcceptsRow_iff)
  then show ?thesis
    unfolding hideRootLevel_def
    using map_nth_filter_upt [of rows "\<lambda>x. isValid (parent (treeIndex x))"] by simp
qed

lemma parent_valid_iff: "isValid (parent idx) = (\<exists>i j. idx = ChildIndex i j)"
  by (cases idx) simp_all

text \<open>
  C7: the filter keeps a row of the flattened sequence iff the tree index the row maps
  back to has a valid parent; the list it leaves consists of the rows of the flattened
  sequence with that property, in order, and each of them maps to a match below a
  category, never to a top-level entry.
\<close>

theorem C7_hide_root_level:
  "(\<forall>r<length rows. hideRoot_filterAcceptsRow rows r InvalidIndex =
                      isValid (parent (treeIndex (rows ! r)))) \<and>
   hideRootLevel rows = filter (\<lambda>x. isValid (parent (treeIndex x))) rows \<and>
   (\<forall>x\<in>set (hideRootLevel rows). \<exists>i j. treeIndex x = ChildIndex i j)"
  by (simp add: hideRoot_filterAcceptsRow_iff hideRootLevel_filter parent_valid_iff)

lemma descendants_queryTree:
  "descendants queryTree =
     [\<lparr>rowDisplay = ''Files'', treeIndex = TopIndex 0\<rparr>,
      \<lparr>rowDisplay = ''foo.txt'', treeIndex = ChildIndex 0 0\<rparr>,
      \<lparr>rowDisplay = ''Apps'', treeIndex = TopIndex 1\<rparr>,
      \<lparr>rowDisplay = ''Foo Bar baz'', treeIndex = ChildIndex 1 0\<rparr>]"
  by (simp add: descendants_def queryTree_def data_display_def upt_rec)

theorem C7_hide_root_level_witness:
  "(0::nat) < length (descendants queryTree) \<and> (1::nat) < length (descendants queryTree) \<and>
   \<not> hideRoot_filterAcceptsRow (descendants queryTree) 0 InvalidIndex \<and>
   hideRoot_filterAcceptsRow (descendants queryTree) 1 InvalidIndex \<and>
   hideRootLevel (descendants queryTree) =
     [\<lparr>rowDisplay = ''foo.txt'', treeIndex = ChildIndex 0 0\<rparr>,
      \<lparr>rowDisplay = ''Foo Bar baz'', treeIndex = ChildIndex 1 0\<rparr>] \<and>
   map treeIndex (hideRootLevel (descendants queryTree)) = [ChildIndex 0 0, ChildIndex 1 0]"
  using C7_hide_root_level [of "descendants queryTree"]
  by (simp add: descendants_queryTree)

subsection \<open>Running a row\<close>

text \<open>
  C9: for every index of the final list that the chain of proxies maps to the invalid
  index, in particular the index of a row at or beyond the length of the list, \<open>run\<close> and
  \<open>runAction\<close> return false and \<open>getMimeData\<close> returns the null pointer, whatever the
  operations of the results model would answer. The three functions are total: no branch
  of them raises.
\<close>

theorem C9_invalid_row:
  "(\<not> isValid (mapLeftToRight rows idx) \<longrightarrow>
      run rows resultsModel_run idx = False \<and>
      runAction rows resultsModel_runAction idx actionNumber = False \<and>
      getMimeData rows resultsModel_mimeData idx = None) \<and>
   (length rows \<le> r \<longrightarrow>
      run rows resultsModel_run (TopIndex r) = False \<and>
      runAction rows resultsModel_runAction (TopIndex r) actionNumber = False \<and>
      getMimeData rows resultsModel_mimeData (TopIndex r) = None)"
  by (simp add: run_def runAction_def getMimeData_def)

theorem C9_invalid_row_witness:
  "\<not> isValid (mapLeftToRight finalRows InvalidIndex) \<and>
   run finalRows (\<lambda>i. True) InvalidIndex = False \<and>
   runAction finalRows (\<lambda>i n. True) InvalidIndex 0 = False \<and>
   getMimeData finalRows (\<lambda>is. Some is) InvalidIndex = None \<and>
   length finalRows \<le> 3 \<and>
   run finalRows (\<lambda>i. True) (TopIndex 3) = False \<and>
   runAction finalRows (\<lambda>i n. True) (TopIndex 3) 0 = False \<and>
   getMimeData finalRows (\<lambda>is. Some is) (TopIndex 3) = None \<and>
   run finalRows (\<lambda>i. True) (TopIndex 2) = True"
  using C9_invalid_row [of finalRows InvalidIndex "\<lambda>i. True" "\<lambda>i n. True" 0 "\<lambda>is. Some is" 3]
  by (simp add: finalRows_def run_def)

end
